theory Spec2Isabelle
  imports Main
begin

section \<open>Python values used by the generator\<close>

text \<open>
  Python integers are unbounded and are modelled as \<open>int\<close>; strings are \<open>string\<close>.
  Every exception the modelled code can raise is a value of \<open>error\<close>; a fallible
  function returns \<open>error + 'a\<close>, with \<open>Inl\<close> for the raised exception.
\<close>

datatype error = ValueError | IndexError | OverflowError

text \<open>The decimal digit character of a number below ten.\<close>

definition digit_char :: "nat \<Rightarrow> char" where
  "digit_char n = char_of (48 + n)"

text \<open>\<open>str(n)\<close> for a natural number: its decimal digits, most significant first.\<close>

fun str_nat :: "nat \<Rightarrow> string" where
  "str_nat n = (if n < 10 then [digit_char n] else str_nat (n div 10) @ [digit_char (n mod 10)])"

declare str_nat.simps [simp del]

text \<open>\<open>str(i)\<close> for a Python integer.\<close>

definition str_int :: "int \<Rightarrow> string" where
  "str_int i = (if i < 0 then CHR ''-'' # str_nat (nat (- i)) else str_nat (nat i))"

text \<open>
  The format specification \<open>0wd\<close> of an f-string (\<open>f"{i:04d}"\<close>): the decimal digits,
  padded with zeros on the left to at least \<open>w\<close> characters; the sign of a negative
  number comes first and counts in the width. Longer numbers are not truncated.
\<close>

definition zfill :: "nat \<Rightarrow> string \<Rightarrow> string" where
  "zfill w s = replicate (w - length s) (CHR ''0'') @ s"

definition format_d :: "nat \<Rightarrow> int \<Rightarrow> string" where
  "format_d w i =
     (if i < 0 then CHR ''-'' # zfill (w - 1) (str_nat (nat (- i)))
      else zfill w (str_nat (nat i)))"

text \<open>
  \<open>int(c)\<close> for a one-character string: the digit's value, \<open>ValueError\<close> for any
  other character.
\<close>

definition int_of_char :: "char \<Rightarrow> error + int" where
  "int_of_char c =
     (let k = (of_char c :: nat)
      in if 48 \<le> k \<and> k \<le> 57 then Inr (int k - 48) else Inl ValueError)"

section \<open>The encoder\<close>

subsection \<open>\<open>calculate_check_digit\<close>\<close>

definition weights :: "int list" where
  "weights = [1, 3, 7, 9, 1, 3, 7, 9, 1, 3]"

text \<open>
  The loop \<open>for i in range(10): total += int(pesel_base[i]) * weights[i]\<close>, over the
  indices still to visit. Indexing past the end of the string raises \<open>IndexError\<close>,
  a character that is no digit raises \<open>ValueError\<close>.
\<close>

fun check_digit_loop :: "string \<Rightarrow> nat list \<Rightarrow> int \<Rightarrow> error + int" where
  "check_digit_loop pesel_base [] total_sum = Inr total_sum"
| "check_digit_loop pesel_base (i # rest) total_sum =
     (if i < length pesel_base then
        (case int_of_char (pesel_base ! i) of
           Inl e \<Rightarrow> Inl e
         | Inr d \<Rightarrow> check_digit_loop pesel_base rest (total_sum + d * weights ! i))
      else Inl IndexError)"

definition calculate_check_digit :: "string \<Rightarrow> error + int" where
  "calculate_check_digit pesel_base =
     (case check_digit_loop pesel_base [0..<10] 0 of
        Inl e \<Rightarrow> Inl e
      | Inr total_sum \<Rightarrow> Inr ((10 - (total_sum mod 10)) mod 10))"

subsection \<open>\<open>generate_sequential_and_sex_digits\<close>\<close>

definition generate_sequential_and_sex_digits :: "int \<Rightarrow> bool \<Rightarrow> string" where
  "generate_sequential_and_sex_digits sequential_number is_male =
     (let sequential_number = max 0 (min 9999 sequential_number);
          is_odd = (sequential_number mod 2 = 1);
          sequential_number =
            (if is_male \<noteq> is_odd then
               (if is_male then sequential_number + 1 else sequential_number - 1)
             else sequential_number)
      in format_d 4 sequential_number)"

subsection \<open>\<open>format_date_for_pesel\<close>\<close>

text \<open>The fields of a \<open>datetime\<close> the generator reads; the time of day is always midnight.\<close>

record datetime =
  year :: int
  month :: int
  day :: int

definition is_leap :: "int \<Rightarrow> bool" where
  "is_leap y = (y mod 4 = 0 \<and> (y mod 100 \<noteq> 0 \<or> y mod 400 = 0))"

definition days_in_month :: "int \<Rightarrow> int \<Rightarrow> int" where
  "days_in_month y m =
     (if m = 2 then (if is_leap y then 29 else 28)
      else if m = 4 \<or> m = 6 \<or> m = 9 \<or> m = 11 then 30 else 31)"

text \<open>The values \<open>datetime\<close> can hold: years 1 to 9999 of the proleptic Gregorian calendar.\<close>

definition valid_date :: "datetime \<Rightarrow> bool" where
  "valid_date d =
     (1 \<le> year d \<and> year d \<le> 9999 \<and> 1 \<le> month d \<and> month d \<le> 12 \<and>
      1 \<le> day d \<and> day d \<le> days_in_month (year d) (month d))"

definition format_date_for_pesel :: "datetime \<Rightarrow> string" where
  "format_date_for_pesel date =
     (let y = year date; m = month date; d = day date;
          m = (if 1800 \<le> y \<and> y \<le> 1899 then m + 80
               else if 2000 \<le> y \<and> y \<le> 2099 then m + 20
               else if 2100 \<le> y \<and> y \<le> 2199 then m + 40
               else if 2200 \<le> y \<and> y \<le> 2299 then m + 60
               else m)
      in format_d 2 (y mod 100) @ format_d 2 m @ format_d 2 d)"

subsection \<open>\<open>generate_pesel_for_date\<close>\<close>

definition generate_pesel_for_date :: "datetime \<Rightarrow> int \<Rightarrow> bool \<Rightarrow> error + string" where
  "generate_pesel_for_date date sequential_number is_male =
     (let date_str = format_date_for_pesel date;
          seq_sex_digits = generate_sequential_and_sex_digits sequential_number is_male;
          pesel_base = date_str @ seq_sex_digits
      in case calculate_check_digit pesel_base of
           Inl e \<Rightarrow> Inl e
         | Inr check_digit \<Rightarrow> Inr (pesel_base @ str_int check_digit))"

section \<open>The range enumerator\<close>

subsection \<open>Dates\<close>

text \<open>
  \<open>datetime(y, m, d)\<close> raises \<open>ValueError\<close> unless the date exists; comparison
  of two dates is by year, then month, then day.
\<close>

definition datetime_new :: "int \<Rightarrow> int \<Rightarrow> int \<Rightarrow> error + datetime" where
  "datetime_new y m d =
     (let date = \<lparr>year = y, month = m, day = d\<rparr>
      in if valid_date date then Inr date else Inl ValueError)"

definition date_le :: "datetime \<Rightarrow> datetime \<Rightarrow> bool" where
  "date_le a b =
     (year a < year b \<or>
      (year a = year b \<and> (month a < month b \<or> (month a = month b \<and> day a \<le> day b))))"

text \<open>
  The proleptic Gregorian ordinal of a date (day 1 is 0001-01-01); the number of days
  between two dates, \<open>(b - a).days\<close>, is the difference of their ordinals.
\<close>

definition days_before_year :: "int \<Rightarrow> int" where
  "days_before_year y = (let y1 = y - 1 in y1 * 365 + y1 div 4 - y1 div 100 + y1 div 400)"

definition days_before_month :: "int \<Rightarrow> int \<Rightarrow> int" where
  "days_before_month y m = sum_list (map (days_in_month y) [1..m - 1])"

definition toordinal :: "datetime \<Rightarrow> int" where
  "toordinal d = days_before_year (year d) + days_before_month (year d) (month d) + day d"

text \<open>
  \<open>date + timedelta(days=1)\<close>: the next calendar day; \<open>OverflowError\<close> past
  9999-12-31, the last date a \<open>datetime\<close> can hold.
\<close>

definition add_one_day :: "datetime \<Rightarrow> error + datetime" where
  "add_one_day d =
     (if day d < days_in_month (year d) (month d) then Inr (d\<lparr>day := day d + 1\<rparr>)
      else if month d < 12 then Inr (d\<lparr>month := month d + 1, day := 1\<rparr>)
      else if year d < 9999 then Inr \<lparr>year = year d + 1, month = 1, day = 1\<rparr>
      else Inl OverflowError)"

subsection \<open>\<open>generate_pesels_for_year_range\<close>\<close>

text \<open>
  The inner loop \<open>for seq_num in range(10000)\<close>, over the sequential numbers still to
  visit; \<open>pesels\<close> is the list built so far.
\<close>

fun seq_loop :: "datetime \<Rightarrow> bool option \<Rightarrow> nat list \<Rightarrow> string list \<Rightarrow> error + string list" where
  "seq_loop date is_male [] acc = Inr acc"
| "seq_loop date is_male (seq_num # rest) acc =
     (case is_male of
        Some male \<Rightarrow>
          (if (male \<and> seq_num mod 2 = 1) \<or> (\<not> male \<and> seq_num mod 2 = 0) then
             (case generate_pesel_for_date date (int seq_num) male of
                Inl e \<Rightarrow> Inl e
              | Inr p \<Rightarrow> seq_loop date is_male rest (acc @ [p]))
           else seq_loop date is_male rest acc)
      | None \<Rightarrow>
          (case generate_pesel_for_date date (int seq_num) (seq_num mod 2 = 1) of
             Inl e \<Rightarrow> Inl e
           | Inr p \<Rightarrow> seq_loop date is_male rest (acc @ [p])))"

text \<open>
  The text of one progress update,
  \<open>print(f"\rProgress: [{progress_bar}] {current_progress}%", end="")\<close>.
\<close>

definition progress_text :: "int \<Rightarrow> int \<Rightarrow> int \<Rightarrow> string" where
  "progress_text days_done total_days current_progress =
     (let bar_width = 50;
          filled_length = (bar_width * days_done) div total_days;
          progress_bar = replicate (nat filled_length) (CHR ''='') @
                         replicate (nat (bar_width - filled_length)) (CHR ''-'')
      in CHR 0x0D # ''Progress: ['' @ progress_bar @ ''] '' @ str_int current_progress @ ''%'')"

text \<open>
  The local variables of the \<open>while\<close> loop, and \<open>console\<close>: everything written to
  standard output so far, one entry per \<open>print\<close>.
\<close>

record loop_state =
  pesels :: "string list"
  current_date :: datetime
  days_processed :: int
  last_progress :: int
  console :: "string list"

text \<open>
  The loop \<open>while current_date <= end_date\<close>. The percentage
  \<open>int((days_processed / total_days) * 100)\<close> is computed in binary floating point;
  it is the parameter \<open>percent\<close>, so that nothing here depends on how it rounds. The
  result is the console and either the exception that ended the loop or the list \<open>pesels\<close>.
\<close>

function day_loop ::
  "(int \<Rightarrow> int \<Rightarrow> int) \<Rightarrow> bool option \<Rightarrow> datetime \<Rightarrow> int \<Rightarrow> loop_state \<Rightarrow>
     string list \<times> (error + string list)" where
  "day_loop percent is_male end_date total_days s =
     (if date_le (current_date s) end_date then
        (case seq_loop (current_date s) is_male [0..<10000] (pesels s) of
           Inl e \<Rightarrow> (console s, Inl e)
         | Inr ps \<Rightarrow>
             (let dp = days_processed s + 1;
                  current_progress = percent dp total_days;
                  out = (if current_progress \<noteq> last_progress s
                         then console s @ [progress_text dp total_days current_progress]
                         else console s)
              in case add_one_day (current_date s) of
                   Inl e \<Rightarrow> (out, Inl e)
                 | Inr next_date \<Rightarrow>
                     day_loop percent is_male end_date total_days
                       \<lparr>pesels = ps, current_date = next_date, days_processed = dp,
                        last_progress = current_progress, console = out\<rparr>))
      else (console s, Inr (pesels s)))"
  by pat_completeness auto
termination
  by (relation "measures [\<lambda>(p, im, e, td, s). nat (year e + 1 - year (current_date s)),
                          \<lambda>(p, im, e, td, s). nat (12 - month (current_date s)),
                          \<lambda>(p, im, e, td, s). nat (31 - day (current_date s))]")
     (auto simp: add_one_day_def date_le_def days_in_month_def split: if_splits)

declare day_loop.simps [simp del]

text \<open>
  The function takes the console as it is when the call begins and returns it with what
  the call printed; the \<open>print()\<close> after the loop writes a line feed.
\<close>

definition generate_pesels_for_year_range ::
  "(int \<Rightarrow> int \<Rightarrow> int) \<Rightarrow> int \<Rightarrow> int \<Rightarrow> bool option \<Rightarrow> string list \<Rightarrow>
     string list \<times> (error + string list)" where
  "generate_pesels_for_year_range percent start_year end_year is_male out =
     (case datetime_new start_year 1 1 of
        Inl e \<Rightarrow> (out, Inl e)
      | Inr start_date \<Rightarrow>
          (case datetime_new end_year 12 31 of
             Inl e \<Rightarrow> (out, Inl e)
           | Inr end_date \<Rightarrow>
               (let total_days = toordinal end_date - toordinal start_date + 1
                in case day_loop percent is_male end_date total_days
                          \<lparr>pesels = [], current_date = start_date, days_processed = 0,
                           last_progress = - 1, console = out\<rparr> of
                     (out', Inl e) \<Rightarrow> (out', Inl e)
                   | (out', Inr ps) \<Rightarrow> (out' @ [[CHR 0x0A]], Inr ps))))"

section \<open>The command line program\<close>

text \<open>
  The parsed command line; \<open>--sex\<close> admits \<open>male\<close> and \<open>female\<close> only.
\<close>

record args =
  args_start_year :: int
  args_end_year :: "int option"
  args_output :: "string option"
  args_sex :: "string option"

text \<open>
  What \<open>main\<close> reads from its surroundings: whether the output file exists, and the
  line typed in answer to the overwrite question.
\<close>

record world =
  path_exists :: "string \<Rightarrow> bool"
  response :: string

text \<open>
  What \<open>main\<close> leaves behind: the console (one entry per \<open>print\<close> or prompt), the
  file written (its path and its lines) if any, and the exception that ended it if any.
\<close>

record effects =
  stdout :: "string list"
  written :: "(string \<times> string list) option"
  raised :: "error option"

definition lower_char :: "char \<Rightarrow> char" where
  "lower_char c =
     (let k = (of_char c :: nat) in if 65 \<le> k \<and> k \<le> 90 then char_of (k + 32) else c)"

definition print_line :: "string \<Rightarrow> string" where
  "print_line s = s @ [CHR 0x0A]"

definition main :: "(int \<Rightarrow> int \<Rightarrow> int) \<Rightarrow> args \<Rightarrow> world \<Rightarrow> effects" where
  "main percent a w =
     (let start_year = args_start_year a;
          end_year = (case args_end_year a of None \<Rightarrow> start_year | Some e \<Rightarrow> e)
      in if start_year < 1800 \<or> end_year > 2299 then
           \<lparr>stdout = [print_line ''Error: Year range must be between 1800 and 2299''],
            written = None, raised = None\<rparr>
         else if start_year > end_year then
           \<lparr>stdout = [print_line ''Error: Start year must be less than or equal to end year''],
            written = None, raised = None\<rparr>
         else
           (let is_male = (if args_sex a = Some ''male'' then Some True
                           else if args_sex a = Some ''female'' then Some False
                           else None);
                out = [print_line (''Generating PESEL numbers for years '' @ str_int start_year @
                                   ''-'' @ str_int end_year @ ''...'')] @
                      (case is_male of
                         None \<Rightarrow> []
                       | Some male \<Rightarrow>
                           [print_line (''Generating only '' @
                                        (if male then ''male'' else ''female'') @ '' PESELs'')])
            in case generate_pesels_for_year_range percent start_year end_year is_male out of
                 (out, Inl e) \<Rightarrow> \<lparr>stdout = out, written = None, raised = Some e\<rparr>
               | (out, Inr ps) \<Rightarrow>
                   (if args_output a \<noteq> None \<and> args_output a \<noteq> Some [] then
                      (let path = the (args_output a);
                           asked = path_exists w path;
                           out = (if asked
                                  then out @ [''File '' @ path @ '' already exists. Overwrite? [y/N] '']
                                  else out)
                       in if asked \<and> map lower_char (response w) \<noteq> ''y'' then
                            \<lparr>stdout = out @ [print_line ''Operation cancelled.''],
                             written = None, raised = None\<rparr>
                          else
                            \<lparr>stdout = out @ [print_line (''Generated '' @ str_int (int (length ps)) @
                                               '' PESEL numbers and saved to '' @ path)],
                             written = Some (path, map print_line ps), raised = None\<rparr>)
                    else
                      \<lparr>stdout = out @ map print_line ps @
                                [print_line (CHR 0x0A # ''Generated '' @ str_int (int (length ps)) @
                                             '' PESEL numbers'')],
                       written = None, raised = None\<rparr>)))"

section \<open>Reading identifiers back\<close>

text \<open>
  The functions below are not part of the program: they read an identifier the way the
  specification describes it, so that the properties can be stated on the digits produced.
\<close>

text \<open>An ASCII decimal digit.\<close>

definition is_digit :: "char \<Rightarrow> bool" where
  "is_digit c = (48 \<le> (of_char c :: nat) \<and> (of_char c :: nat) \<le> 57)"

text \<open>The value of a digit character.\<close>

definition digit_value :: "char \<Rightarrow> nat" where
  "digit_value c = of_char c - 48"

text \<open>The number a string of digits denotes.\<close>

definition digits_value :: "string \<Rightarrow> nat" where
  "digits_value s = foldl (\<lambda>a c. 10 * a + digit_value c) 0 s"

text \<open>The checksum of the specification: the digits are multiplied by the fixed weights, summed, and the check digit is \<open>(10 - (sum mod 10)) mod 10\<close>.\<close>

definition checksum_formula :: "nat list \<Rightarrow> nat" where
  "checksum_formula ds =
     (10 - (sum_list (map2 (*) ds [1, 3, 7, 9, 1, 3, 7, 9, 1, 3]) mod 10)) mod 10"

text \<open>The four digits after the six of the date: the sequential number with the sex parity.\<close>

definition seq_sex_block :: "string \<Rightarrow> string" where
  "seq_sex_block p = take 4 (drop 6 p)"

text \<open>The sequential number as the specification describes it: clamped into 0..9999, then moved by one towards the requested parity (odd for male, even for female) when the parity is wrong.\<close>

definition spec_sequential_number :: "int \<Rightarrow> bool \<Rightarrow> int" where
  "spec_sequential_number seq male =
     (let clamped = (if seq < 0 then 0 else if seq > 9999 then 9999 else seq)
      in if odd clamped = male then clamped
         else if male then clamped + 1 else clamped - 1)"

text \<open>The century offset table of the specification.\<close>

definition spec_month_offset :: "int \<Rightarrow> int" where
  "spec_month_offset y =
     (if 1800 \<le> y \<and> y \<le> 1899 then 80
      else if 1900 \<le> y \<and> y \<le> 1999 then 0
      else if 2000 \<le> y \<and> y \<le> 2099 then 20
      else if 2100 \<le> y \<and> y \<le> 2199 then 40
      else if 2200 \<le> y \<and> y \<le> 2299 then 60
      else 0)"

text \<open>The third and fourth digit of an identifier: the month with its century offset.\<close>

definition encoded_month :: "string \<Rightarrow> string" where
  "encoded_month p = take 2 (drop 2 p)"

text \<open>The number written in the block of the sequential number and the sex.\<close>

definition block_value :: "string \<Rightarrow> nat" where
  "block_value p = digits_value (seq_sex_block p)"

section \<open>What the enumerator is expected to produce\<close>

text \<open>
  The identifier for a date, a sequential number and a sex, as a plain string (the encoder
  never fails on a date that exists).
\<close>

definition pesel_of :: "datetime \<Rightarrow> nat \<Rightarrow> bool \<Rightarrow> string" where
  "pesel_of date seq_num male = projr (generate_pesel_for_date date (int seq_num) male)"

text \<open>Whether a sequential number passes the sex filter: always when there is none.\<close>

definition seq_selected :: "bool option \<Rightarrow> nat \<Rightarrow> bool" where
  "seq_selected is_male seq_num = (case is_male of None \<Rightarrow> True | Some male \<Rightarrow> odd seq_num = male)"

text \<open>
  The identifiers of one day: one for each selected sequential number from 0 to 9999, in
  ascending order, the sex taken from the number's parity.
\<close>

definition day_pesels :: "datetime \<Rightarrow> bool option \<Rightarrow> string list" where
  "day_pesels date is_male =
     map (\<lambda>n. pesel_of date n (odd n)) (filter (seq_selected is_male) [0..<10000])"

text \<open>Strict order of dates.\<close>

definition date_less :: "datetime \<Rightarrow> datetime \<Rightarrow> bool" where
  "date_less a b =
     (year a < year b \<or>
      (year a = year b \<and> (month a < month b \<or> (month a = month b \<and> day a < day b))))"

text \<open>
  The days from \<open>first\<close> to \<open>last_date\<close>, each the day after the one before; the list
  stops early at 9999-12-31, which has no next day.
\<close>

function dates_from :: "datetime \<Rightarrow> datetime \<Rightarrow> datetime list" where
  "dates_from first last_date =
     (if date_le first last_date then
        first # (case add_one_day first of Inl e \<Rightarrow> [] | Inr next_date \<Rightarrow> dates_from next_date last_date)
      else [])"
  by pat_completeness auto
termination
  by (relation "measures [\<lambda>(d, e). nat (year e + 1 - year d),
                          \<lambda>(d, e). nat (12 - month d),
                          \<lambda>(d, e). nat (31 - day d)]")
     (auto simp: add_one_day_def date_le_def days_in_month_def split: if_splits)

declare dates_from.simps [simp del]

section \<open>Digits and formatting\<close>

lemma of_char_digit_char: "n < 10 \<Longrightarrow> (of_char (digit_char n) :: nat) = 48 + n"
  by (simp add: digit_char_def)

lemma is_digit_digit_char: "n < 10 \<Longrightarrow> is_digit (digit_char n)"
  by (simp add: is_digit_def of_char_digit_char)

lemma digit_value_digit_char: "n < 10 \<Longrightarrow> digit_value (digit_char n) = n"
  by (simp add: digit_value_def of_char_digit_char)

lemma int_of_char_digit: "is_digit c \<Longrightarrow> int_of_char c = Inr (int (digit_value c))"
  by (simp add: int_of_char_def is_digit_def digit_value_def Let_def)

lemma str_nat_digits: "\<forall>c \<in> set (str_nat n). is_digit c"
proof (induction n rule: str_nat.induct)
  case (1 n)
  show ?case
  proof (cases "n < 10")
    case True
    then show ?thesis by (simp add: str_nat.simps [of n] is_digit_digit_char)
  next
    case False
    with 1 show ?thesis by (simp add: str_nat.simps [of n] is_digit_digit_char)
  qed
qed

lemma digits_value_snoc: "digits_value (s @ [c]) = 10 * digits_value s + digit_value c"
  by (simp add: digits_value_def)

lemma digits_value_str_nat: "digits_value (str_nat n) = n"
proof (induction n rule: str_nat.induct)
  case (1 n)
  show ?case
  proof (cases "n < 10")
    case True
    then show ?thesis by (simp add: str_nat.simps [of n] digits_value_def digit_value_digit_char)
  next
    case False
    with 1 show ?thesis
      by (simp add: str_nat.simps [of n] digits_value_snoc digit_value_digit_char)
  qed
qed

lemma length_str_nat: "n < 10 ^ w \<Longrightarrow> 0 < w \<Longrightarrow> length (str_nat n) \<le> w"
proof (induction n arbitrary: w rule: str_nat.induct)
  case (1 n)
  show ?case
  proof (cases "n < 10")
    case True
    with 1 show ?thesis by (simp add: str_nat.simps [of n])
  next
    case False
    with "1.prems" obtain v where w: "w = Suc v" by (cases w) auto
    with False "1.prems" have v: "0 < v" by (cases v) auto
    from "1.prems" w have "n div 10 < 10 ^ v" by (simp add: less_mult_imp_div_less mult.commute)
    with 1 False v have "length (str_nat (n div 10)) \<le> v" by simp
    with False w show ?thesis by (simp add: str_nat.simps [of n])
  qed
qed

lemma digits_value_zeros: "digits_value (replicate k (CHR ''0'') @ s) = digits_value s"
  by (induction k) (simp_all add: digits_value_def digit_value_def)

lemma is_digit_zero: "is_digit (CHR ''0'')"
  by (simp add: is_digit_def)

lemma format_d_nonneg:
  assumes "0 \<le> i" and "i < 10 ^ w" and "0 < w"
  shows "length (format_d w i) = w"
    and "\<forall>c \<in> set (format_d w i). is_digit c"
    and "int (digits_value (format_d w i)) = i"
proof -
  from assms have "nat i < 10 ^ w"
    by (metis nat_less_iff of_nat_numeral of_nat_power)
  with assms have "length (str_nat (nat i)) \<le> w" by (simp add: length_str_nat)
  with assms show "length (format_d w i) = w" by (simp add: format_d_def zfill_def)
  from assms show "\<forall>c \<in> set (format_d w i). is_digit c"
    using str_nat_digits [of "nat i"] by (auto simp: format_d_def zfill_def is_digit_zero)
  from assms show "int (digits_value (format_d w i)) = i"
    by (simp add: format_d_def zfill_def digits_value_zeros digits_value_str_nat)
qed

lemma upt_10: "[0..<10] = [0, 1, 2, 3, 4, 5, 6, 7, 8, 9]"
  by code_simp

lemma ten_prefix:
  assumes "10 \<le> length (s :: 'a list)"
  shows "\<exists>x0 x1 x2 x3 x4 x5 x6 x7 x8 x9 r. s = x0 # x1 # x2 # x3 # x4 # x5 # x6 # x7 # x8 # x9 # r"
  using assms by (auto simp: numeral_eq_Suc Suc_le_length_iff)

lemma checksum_int:
  "(10 - int n mod 10) mod 10 = int ((10 - n mod 10) mod 10)"
proof -
  have "n mod 10 \<le> 10" by simp
  then have "int (10 - n mod 10) = 10 - int n mod 10"
    by (simp add: of_nat_diff zmod_int)
  then show ?thesis by (simp add: zmod_int)
qed

lemma calculate_check_digit_digits:
  assumes len: "10 \<le> length s" and dig: "\<forall>c \<in> set (take 10 s). is_digit c"
  shows "calculate_check_digit s = Inr (int (checksum_formula (map digit_value (take 10 s))))"
proof -
  from ten_prefix [OF len] obtain x0 x1 x2 x3 x4 x5 x6 x7 x8 x9 r
    where s: "s = x0 # x1 # x2 # x3 # x4 # x5 # x6 # x7 # x8 # x9 # r" by blast
  from dig have d: "is_digit x0" "is_digit x1" "is_digit x2" "is_digit x3" "is_digit x4"
    "is_digit x5" "is_digit x6" "is_digit x7" "is_digit x8" "is_digit x9"
    by (simp_all add: s)
  have loop: "check_digit_loop s [0..<10] 0 =
        Inr (int (sum_list (map2 (*) (map digit_value (take 10 s)) [1, 3, 7, 9, 1, 3, 7, 9, 1, 3])))"
    by (simp add: upt_10 s d int_of_char_digit weights_def)
  show ?thesis
    by (simp only: calculate_check_digit_def loop sum.case checksum_formula_def checksum_int)
qed

lemma checksum_formula_less: "checksum_formula ds < 10"
  by (simp add: checksum_formula_def)

section \<open>The encoder produces well-formed identifiers\<close>

lemma format_date_for_pesel_digits:
  assumes "valid_date date"
  shows "length (format_date_for_pesel date) = 6"
    and "\<forall>c \<in> set (format_date_for_pesel date). is_digit c"
proof -
  let ?y = "year date mod 100"
  let ?m = "(if 1800 \<le> year date \<and> year date \<le> 1899 then month date + 80
               else if 2000 \<le> year date \<and> year date \<le> 2099 then month date + 20
               else if 2100 \<le> year date \<and> year date \<le> 2199 then month date + 40
               else if 2200 \<le> year date \<and> year date \<le> 2299 then month date + 60
               else month date)"
  have y: "0 \<le> ?y" "?y < 10 ^ 2" by simp_all
  from assms have m: "0 \<le> ?m" "?m < 10 ^ 2" by (auto simp: valid_date_def)
  from assms have d: "0 \<le> day date" "day date < 10 ^ 2"
    by (auto simp: valid_date_def days_in_month_def split: if_splits)
  have eq: "format_date_for_pesel date = format_d 2 ?y @ format_d 2 ?m @ format_d 2 (day date)"
    by (simp add: format_date_for_pesel_def Let_def)
  show "length (format_date_for_pesel date) = 6"
    by (simp only: eq length_append format_d_nonneg(1) [OF y] format_d_nonneg(1) [OF m]
        format_d_nonneg(1) [OF d])
  show "\<forall>c \<in> set (format_date_for_pesel date). is_digit c"
    using format_d_nonneg(2) [OF y] format_d_nonneg(2) [OF m] format_d_nonneg(2) [OF d]
    by (auto simp only: eq set_append)
qed

lemma spec_sequential_number_range:
  "0 \<le> spec_sequential_number seq male" "spec_sequential_number seq male < 10 ^ 4"
  by (auto simp: spec_sequential_number_def Let_def) presburger+

lemma spec_sequential_number_parity: "odd (spec_sequential_number seq male) = male"
  by (auto simp: spec_sequential_number_def Let_def)

lemma generate_sequential_and_sex_digits_spec:
  "generate_sequential_and_sex_digits seq male = format_d 4 (spec_sequential_number seq male)"
proof -
  have "(max 0 (min 9999 seq) mod 2 = 1) = odd (max 0 (min 9999 seq))"
    by presburger
  then show ?thesis
    by (auto simp: generate_sequential_and_sex_digits_def spec_sequential_number_def Let_def
        max_def min_def)
qed

lemma seq_sex_digits_facts:
  "length (generate_sequential_and_sex_digits seq male) = 4"
  "\<forall>c \<in> set (generate_sequential_and_sex_digits seq male). is_digit c"
  "int (digits_value (generate_sequential_and_sex_digits seq male)) = spec_sequential_number seq male"
proof -
  have w: "(0::nat) < 4" by simp
  note f = format_d_nonneg [OF spec_sequential_number_range w, of seq male]
  show "length (generate_sequential_and_sex_digits seq male) = 4"
    by (simp only: generate_sequential_and_sex_digits_spec f(1))
  show "\<forall>c \<in> set (generate_sequential_and_sex_digits seq male). is_digit c"
    using f(2) by (simp only: generate_sequential_and_sex_digits_spec)
  show "int (digits_value (generate_sequential_and_sex_digits seq male)) = spec_sequential_number seq male"
    by (simp only: generate_sequential_and_sex_digits_spec f(3))
qed

lemma str_int_digit: "k < 10 \<Longrightarrow> str_int (int k) = [digit_char k]"
  by (simp add: str_int_def str_nat.simps [of k])

lemma generate_pesel_for_date_shape:
  assumes "valid_date date"
  shows "generate_pesel_for_date date seq male =
           Inr ((format_date_for_pesel date @ generate_sequential_and_sex_digits seq male) @
                [digit_char (checksum_formula (map digit_value
                   (format_date_for_pesel date @ generate_sequential_and_sex_digits seq male)))])"
proof -
  let ?base = "format_date_for_pesel date @ generate_sequential_and_sex_digits seq male"
  have len: "length ?base = 10"
    by (simp add: format_date_for_pesel_digits(1) [OF assms] seq_sex_digits_facts(1))
  have dig: "\<forall>c \<in> set (take 10 ?base). is_digit c"
    using format_date_for_pesel_digits(2) [OF assms] seq_sex_digits_facts(2) [of seq male] len
    by auto
  from len have "10 \<le> length ?base" by simp
  from calculate_check_digit_digits [OF this dig] len
  have "calculate_check_digit ?base = Inr (int (checksum_formula (map digit_value ?base)))"
    by simp
  then show ?thesis
    by (simp add: generate_pesel_for_date_def Let_def str_int_digit checksum_formula_less)
qed

lemma format_date_for_pesel_fields:
  assumes v: "valid_date date" and c: "1800 \<le> year date" "year date \<le> 2299"
  shows "format_date_for_pesel date =
           format_d 2 (year date mod 100) @
           format_d 2 (month date + spec_month_offset (year date)) @
           format_d 2 (day date)"
    and "int (digits_value (take 2 (format_date_for_pesel date))) = year date mod 100"
    and "int (digits_value (encoded_month (format_date_for_pesel date))) =
           month date + spec_month_offset (year date)"
    and "int (digits_value (drop 4 (format_date_for_pesel date))) = day date"
proof -
  let ?y = "year date mod 100"
  let ?m = "month date + spec_month_offset (year date)"
  have two: "(0::nat) < 2" by simp
  have y: "0 \<le> ?y" "?y < 10 ^ 2" by simp_all
  from v have m: "0 \<le> ?m" "?m < 10 ^ 2" by (auto simp: valid_date_def spec_month_offset_def)
  from v have d: "0 \<le> day date" "day date < 10 ^ 2"
    by (auto simp: valid_date_def days_in_month_def split: if_splits)
  note fy = format_d_nonneg [OF y two]
  note fm = format_d_nonneg [OF m two]
  note fd = format_d_nonneg [OF d two]
  from c show eq: "format_date_for_pesel date = format_d 2 ?y @ format_d 2 ?m @ format_d 2 (day date)"
    by (auto simp: format_date_for_pesel_def Let_def spec_month_offset_def)
  show "int (digits_value (take 2 (format_date_for_pesel date))) = year date mod 100"
    by (simp add: eq fy)
  show "int (digits_value (encoded_month (format_date_for_pesel date))) = ?m"
    by (simp add: eq fy fm encoded_month_def)
  show "int (digits_value (drop 4 (format_date_for_pesel date))) = day date"
    by (simp add: eq fy fm fd)
qed

text \<open>
  C1. For every date a \<open>datetime\<close> can hold, every integer sequential number and either
  sex, \<open>generate_pesel_for_date\<close> returns a string of exactly eleven ASCII digits, and the
  checksum formula of the specification, applied to its first ten digits, gives the eleventh.
\<close>

theorem generate_pesel_for_date_checksum:
  assumes "valid_date date"
  shows "\<exists>p. generate_pesel_for_date date seq male = Inr p \<and> length p = 11 \<and>
             list_all is_digit p \<and>
             digit_value (p ! 10) = checksum_formula (map digit_value (take 10 p))"
proof -
  let ?base = "format_date_for_pesel date @ generate_sequential_and_sex_digits seq male"
  let ?k = "checksum_formula (map digit_value ?base)"
  have len: "length ?base = 10"
    by (simp add: format_date_for_pesel_digits(1) [OF assms] seq_sex_digits_facts(1))
  have dig: "list_all is_digit ?base"
    using format_date_for_pesel_digits(2) [OF assms] seq_sex_digits_facts(2) [of seq male]
    by (auto simp: list_all_iff)
  have k: "?k < 10" by (rule checksum_formula_less)
  have "length (?base @ [digit_char ?k]) = 11" using len by simp
  moreover have "list_all is_digit (?base @ [digit_char ?k])"
    using dig k by (simp add: is_digit_digit_char)
  moreover have "digit_value ((?base @ [digit_char ?k]) ! 10) = ?k"
    using nth_append_length [of ?base "digit_char ?k" "[]"] k
    by (simp only: len digit_value_digit_char)
  moreover have "take 10 (?base @ [digit_char ?k]) = ?base" using len by simp
  ultimately show ?thesis
    by (simp only: generate_pesel_for_date_shape [OF assms]) simp
qed

theorem generate_pesel_for_date_checksum_witness:
  "valid_date \<lparr>year = 1999, month = 1, day = 1\<rparr> \<and>
   (\<exists>p. generate_pesel_for_date \<lparr>year = 1999, month = 1, day = 1\<rparr> 0 False = Inr p \<and>
        length p = 11 \<and> list_all is_digit p \<and>
        digit_value (p ! 10) = checksum_formula (map digit_value (take 10 p)))"
proof -
  have v: "valid_date \<lparr>year = 1999, month = 1, day = 1\<rparr>"
    by (simp add: valid_date_def days_in_month_def)
  from v generate_pesel_for_date_checksum [OF v, of 0 False] show ?thesis by blast
qed

section \<open>The sequential number and the sex parity\<close>

lemma digit_char_values:
  "digit_char 0 = CHR ''0''" "digit_char 1 = CHR ''1''" "digit_char 2 = CHR ''2''"
  "digit_char 3 = CHR ''3''" "digit_char 4 = CHR ''4''" "digit_char 5 = CHR ''5''"
  "digit_char 6 = CHR ''6''" "digit_char 7 = CHR ''7''" "digit_char 8 = CHR ''8''"
  "digit_char 9 = CHR ''9''"
proof -
  have eq: "digit_char n = c" if "n < 10" and "(of_char c :: nat) = 48 + n" for n c
  proof -
    from that have "(of_char (digit_char n) :: nat) = of_char c"
      by (simp add: of_char_digit_char)
    then show ?thesis by (simp only: of_char_eq_iff)
  qed
  show "digit_char 0 = CHR ''0''" by (rule eq) simp_all
  show "digit_char 1 = CHR ''1''" by (rule eq) simp_all
  show "digit_char 2 = CHR ''2''" by (rule eq) simp_all
  show "digit_char 3 = CHR ''3''" by (rule eq) simp_all
  show "digit_char 4 = CHR ''4''" by (rule eq) simp_all
  show "digit_char 5 = CHR ''5''" by (rule eq) simp_all
  show "digit_char 6 = CHR ''6''" by (rule eq) simp_all
  show "digit_char 7 = CHR ''7''" by (rule eq) simp_all
  show "digit_char 8 = CHR ''8''" by (rule eq) simp_all
  show "digit_char 9 = CHR ''9''" by (rule eq) simp_all
qed

lemma str_nat_9998: "str_nat 9998 = ''9998''"
proof -
  have "str_nat 9 = ''9''" by (simp add: str_nat.simps [of 9] digit_char_values)
  then have "str_nat 99 = ''99''" by (simp add: str_nat.simps [of 99] digit_char_values)
  then have "str_nat 999 = ''999''" by (simp add: str_nat.simps [of 999] digit_char_values)
  then show ?thesis by (simp add: str_nat.simps [of 9998] digit_char_values)
qed

lemma spec_9999_female: "spec_sequential_number 9999 False = 9998"
  by (simp add: spec_sequential_number_def)

lemma digits_9999_female: "generate_sequential_and_sex_digits 9999 False = ''9998''"
  by (simp add: generate_sequential_and_sex_digits_spec spec_9999_female format_d_def zfill_def
      str_nat_9998)

text \<open>
  C4. For every integer sequential number and either sex, the four digits produced are the
  number clamped into 0..9999 and then moved by one (up for male, down for female) when its
  parity does not match the sex; the result stays within 0..9999, and 9999 requested as
  female gives 9998.
\<close>

theorem sequential_number_clamped_then_adjusted:
  "generate_sequential_and_sex_digits seq male = format_d 4 (spec_sequential_number seq male) \<and>
   length (generate_sequential_and_sex_digits seq male) = 4 \<and>
   list_all is_digit (generate_sequential_and_sex_digits seq male) \<and>
   int (digits_value (generate_sequential_and_sex_digits seq male)) = spec_sequential_number seq male \<and>
   0 \<le> spec_sequential_number seq male \<and> spec_sequential_number seq male \<le> 9999 \<and>
   spec_sequential_number 9999 False = 9998 \<and>
   generate_sequential_and_sex_digits 9999 False = ''9998''"
proof -
  have c: "spec_sequential_number seq male \<le> 9999"
    using spec_sequential_number_range(2) [of seq male] by simp
  have d: "list_all is_digit (generate_sequential_and_sex_digits seq male)"
    using seq_sex_digits_facts(2) [of seq male] by (simp only: list_all_iff)
  from generate_sequential_and_sex_digits_spec [of seq male] seq_sex_digits_facts(1) [of seq male]
    d seq_sex_digits_facts(3) [of seq male] spec_sequential_number_range(1) [of seq male] c
    spec_9999_female digits_9999_female
  show ?thesis by (intro conjI)
qed

theorem sequential_number_clamped_then_adjusted_witness:
  "generate_sequential_and_sex_digits 12345 True = format_d 4 (spec_sequential_number 12345 True) \<and>
   int (digits_value (generate_sequential_and_sex_digits 12345 True)) = 9999 \<and>
   int (digits_value (generate_sequential_and_sex_digits (- 7) False)) = 0 \<and>
   generate_sequential_and_sex_digits 9999 False = ''9998''"
proof -
  have a: "spec_sequential_number 12345 True = 9999" "spec_sequential_number (- 7) False = 0"
    by (simp_all add: spec_sequential_number_def)
  note t1 = sequential_number_clamped_then_adjusted [of 12345 True]
  note t2 = sequential_number_clamped_then_adjusted [of "- 7" False]
  from t1 have b1: "generate_sequential_and_sex_digits 12345 True = format_d 4 (spec_sequential_number 12345 True)"
    by (rule conjunct1)
  from t1 have "int (digits_value (generate_sequential_and_sex_digits 12345 True)) = spec_sequential_number 12345 True"
    by (elim conjE)
  then have b2: "int (digits_value (generate_sequential_and_sex_digits 12345 True)) = 9999"
    by (simp only: a)
  from t2 have "int (digits_value (generate_sequential_and_sex_digits (- 7) False)) = spec_sequential_number (- 7) False"
    by (elim conjE)
  then have b3: "int (digits_value (generate_sequential_and_sex_digits (- 7) False)) = 0"
    by (simp only: a)
  from t1 have b4: "generate_sequential_and_sex_digits 9999 False = ''9998''"
    by (elim conjE)
  from b1 b2 b3 b4 show ?thesis by (intro conjI)
qed

lemma seq_sex_block_of_pesel:
  assumes "valid_date date"
  shows "\<exists>p. generate_pesel_for_date date seq male = Inr p \<and>
             take 6 p = format_date_for_pesel date \<and>
             seq_sex_block p = generate_sequential_and_sex_digits seq male"
  by (simp add: generate_pesel_for_date_shape [OF assms] seq_sex_block_def
      format_date_for_pesel_digits(1) [OF assms] seq_sex_digits_facts(1))

text \<open>
  C2. For every date a \<open>datetime\<close> can hold, every integer sequential number and either
  sex, the number written in the four-digit block after the date is odd exactly when male
  was requested and even exactly when female was requested, whether or not the sequential
  number had to be adjusted.
\<close>

theorem seq_sex_block_parity:
  assumes "valid_date date"
  shows "\<exists>p. generate_pesel_for_date date seq male = Inr p \<and>
             (digits_value (seq_sex_block p) mod 2 = 1) = male \<and>
             (digits_value (seq_sex_block p) mod 2 = 0) = (\<not> male)"
proof -
  from seq_sex_block_of_pesel [OF assms, of seq male] obtain p
    where p: "generate_pesel_for_date date seq male = Inr p"
      and b: "seq_sex_block p = generate_sequential_and_sex_digits seq male" by blast
  have "int (digits_value (seq_sex_block p)) = spec_sequential_number seq male"
    by (simp only: b seq_sex_digits_facts(3))
  then have "odd (int (digits_value (seq_sex_block p))) = male"
    by (simp only: spec_sequential_number_parity)
  then have o: "odd (digits_value (seq_sex_block p)) = male" by simp
  then have e: "even (digits_value (seq_sex_block p)) = (\<not> male)" by auto
  from o have m1: "(digits_value (seq_sex_block p) mod 2 = 1) = male"
    by (simp only: odd_iff_mod_2_eq_one)
  from e have m2: "(digits_value (seq_sex_block p) mod 2 = 0) = (\<not> male)"
    by (simp only: even_iff_mod_2_eq_zero)
  note m1 m2
  with p show ?thesis by (intro exI [of _ p] conjI)
qed

theorem seq_sex_block_parity_witness:
  "valid_date \<lparr>year = 2020, month = 2, day = 29\<rparr> \<and>
   (\<exists>p. generate_pesel_for_date \<lparr>year = 2020, month = 2, day = 29\<rparr> 4 True = Inr p \<and>
        (digits_value (seq_sex_block p) mod 2 = 1) = True \<and>
        (digits_value (seq_sex_block p) mod 2 = 0) = (\<not> True))"
proof -
  have v: "valid_date \<lparr>year = 2020, month = 2, day = 29\<rparr>"
    by (simp add: valid_date_def days_in_month_def is_leap_def)
  from v seq_sex_block_parity [OF v, of 4 True] show ?thesis by (rule conjI)
qed

section \<open>The century-dependent month\<close>

lemma digit_char_Suc_0: "digit_char (Suc 0) = CHR ''1''"
proof -
  have "(of_char (digit_char (Suc 0)) :: nat) = of_char CHR ''1''"
    by (simp add: of_char_digit_char)
  then show ?thesis by (simp only: of_char_eq_iff)
qed

lemma str_nat_small:
  "str_nat 0 = ''0''" "str_nat 1 = ''1''" "str_nat 20 = ''20''" "str_nat 81 = ''81''"
  "str_nat 21 = ''21''" "str_nat 41 = ''41''"
proof -
  show a: "str_nat 0 = ''0''" by (simp add: str_nat.simps [of 0] digit_char_values)
  note dc1 = digit_char_Suc_0
  then have s1: "str_nat (Suc 0) = ''1''" by (simp add: str_nat.simps [of "Suc 0"])
  then show b: "str_nat 1 = ''1''" by (simp only: One_nat_def)
  have c: "str_nat 2 = ''2''" by (simp add: str_nat.simps [of 2] digit_char_values)
  have d: "str_nat 4 = ''4''" by (simp add: str_nat.simps [of 4] digit_char_values)
  have e: "str_nat 8 = ''8''" by (simp add: str_nat.simps [of 8] digit_char_values)
  show "str_nat 20 = ''20''" by (simp add: str_nat.simps [of 20] digit_char_values c)
  show "str_nat 81 = ''81''" by (simp add: str_nat.simps [of 81] digit_char_values dc1 e)
  show "str_nat 21 = ''21''" by (simp add: str_nat.simps [of 21] digit_char_values dc1 c)
  show "str_nat 41 = ''41''" by (simp add: str_nat.simps [of 41] digit_char_values dc1 d)
qed

lemma str_nat_Suc_0: "str_nat (Suc 0) = ''1''"
  using str_nat_small(2) by (simp only: One_nat_def)

lemma format_date_examples:
  "format_date_for_pesel \<lparr>year = 1800, month = 1, day = 1\<rparr> = ''008101''"
  "format_date_for_pesel \<lparr>year = 1900, month = 1, day = 1\<rparr> = ''000101''"
  "format_date_for_pesel \<lparr>year = 2000, month = 1, day = 1\<rparr> = ''002101''"
  "format_date_for_pesel \<lparr>year = 2020, month = 1, day = 1\<rparr> = ''202101''"
  "format_date_for_pesel \<lparr>year = 2100, month = 1, day = 1\<rparr> = ''004101''"
  by (simp_all add: format_date_for_pesel_def format_d_def zfill_def str_nat_small str_nat_Suc_0)

lemma digit_value_chars:
  "digit_value CHR ''0'' = 0" "digit_value CHR ''1'' = 1" "digit_value CHR ''2'' = 2"
  "digit_value CHR ''3'' = 3" "digit_value CHR ''4'' = 4" "digit_value CHR ''5'' = 5"
  "digit_value CHR ''6'' = 6" "digit_value CHR ''7'' = 7" "digit_value CHR ''8'' = 8"
  "digit_value CHR ''9'' = 9"
  by (simp_all add: digit_value_def)

lemma valid_2000_01_01: "valid_date \<lparr>year = 2000, month = 1, day = 1\<rparr>"
  by (simp add: valid_date_def days_in_month_def)

lemma seq_digits_1_male: "generate_sequential_and_sex_digits 1 True = ''0001''"
  by (simp add: generate_sequential_and_sex_digits_spec spec_sequential_number_def format_d_def
      zfill_def str_nat_Suc_0 numeral_3_eq_3)

lemma encoded_month_take_6: "encoded_month (take 6 p) = encoded_month p"
  by (simp add: encoded_month_def take_drop)

lemma encoded_month_of_pesel:
  assumes "valid_date date"
  shows "\<exists>p. generate_pesel_for_date date seq male = Inr p \<and> take 6 p = format_date_for_pesel date \<and>
             encoded_month p = encoded_month (format_date_for_pesel date)"
proof -
  from seq_sex_block_of_pesel [OF assms, of seq male] obtain p
    where p: "generate_pesel_for_date date seq male = Inr p"
      and t: "take 6 p = format_date_for_pesel date" by blast
  have "encoded_month p = encoded_month (format_date_for_pesel date)"
    by (simp only: t [symmetric] encoded_month_take_6)
  with p t show ?thesis by (intro exI [of _ p] conjI)
qed

lemma valid_first_of_january: "1 \<le> y \<Longrightarrow> y \<le> 9999 \<Longrightarrow> valid_date \<lparr>year = y, month = 1, day = 1\<rparr>"
  by (simp add: valid_date_def days_in_month_def)

lemma encoded_month_examples:
  "\<exists>p. generate_pesel_for_date \<lparr>year = 1800, month = 1, day = 1\<rparr> seq male = Inr p \<and> encoded_month p = ''81''"
  "\<exists>p. generate_pesel_for_date \<lparr>year = 1900, month = 1, day = 1\<rparr> seq male = Inr p \<and> encoded_month p = ''01''"
  "\<exists>p. generate_pesel_for_date \<lparr>year = 2000, month = 1, day = 1\<rparr> seq male = Inr p \<and> encoded_month p = ''21''"
  "\<exists>p. generate_pesel_for_date \<lparr>year = 2020, month = 1, day = 1\<rparr> seq male = Inr p \<and> encoded_month p = ''21''"
  "\<exists>p. generate_pesel_for_date \<lparr>year = 2100, month = 1, day = 1\<rparr> seq male = Inr p \<and> encoded_month p = ''41''"
proof -
  have e: "encoded_month ''008101'' = ''81''" "encoded_month ''000101'' = ''01''"
    "encoded_month ''002101'' = ''21''" "encoded_month ''202101'' = ''21''"
    "encoded_month ''004101'' = ''41''"
    by (simp_all add: encoded_month_def)
  have r: "\<exists>p. generate_pesel_for_date \<lparr>year = y, month = 1, day = 1\<rparr> seq male = Inr p \<and> encoded_month p = m"
    if "1 \<le> y" "y \<le> 9999" "encoded_month (format_date_for_pesel \<lparr>year = y, month = 1, day = 1\<rparr>) = m"
    for y m
    using encoded_month_of_pesel [OF valid_first_of_january [OF that(1,2)], of seq male] that(3)
    by auto
  show "\<exists>p. generate_pesel_for_date \<lparr>year = 1800, month = 1, day = 1\<rparr> seq male = Inr p \<and> encoded_month p = ''81''"
    by (rule r) (simp_all add: format_date_examples e)
  show "\<exists>p. generate_pesel_for_date \<lparr>year = 1900, month = 1, day = 1\<rparr> seq male = Inr p \<and> encoded_month p = ''01''"
    by (rule r) (simp_all add: format_date_examples e)
  show "\<exists>p. generate_pesel_for_date \<lparr>year = 2000, month = 1, day = 1\<rparr> seq male = Inr p \<and> encoded_month p = ''21''"
    by (rule r) (simp_all add: format_date_examples e)
  show "\<exists>p. generate_pesel_for_date \<lparr>year = 2020, month = 1, day = 1\<rparr> seq male = Inr p \<and> encoded_month p = ''21''"
    by (rule r) (simp_all add: format_date_examples e)
  show "\<exists>p. generate_pesel_for_date \<lparr>year = 2100, month = 1, day = 1\<rparr> seq male = Inr p \<and> encoded_month p = ''41''"
    by (rule r) (simp_all add: format_date_examples e)
qed

lemma pesel_2000_01_01: 
  "generate_pesel_for_date \<lparr>year = 2000, month = 1, day = 1\<rparr> 1 True = Inr ''00210100011''"
  by (simp add: generate_pesel_for_date_shape [OF valid_2000_01_01] format_date_examples
      seq_digits_1_male checksum_formula_def digit_value_chars digit_char_values digit_char_Suc_0)

text \<open>
  C3 as stated says that the identifier for 2000-01-01 carries the month as \<open>01\<close>. The
  year 2000 lies in 2000..2099, where 20 is added: the identifier for 2000-01-01 with
  sequential number 1, male, is \<open>00210100011\<close>, with month field \<open>21\<close>.
\<close>

theorem month_of_2000_01_01_counterexample:
  "generate_pesel_for_date \<lparr>year = 2000, month = 1, day = 1\<rparr> 1 True = Inr ''00210100011'' \<and>
   encoded_month ''00210100011'' = ''21'' \<and>
   \<not> (\<exists>p. generate_pesel_for_date \<lparr>year = 2000, month = 1, day = 1\<rparr> 1 True = Inr p \<and>
            encoded_month p = ''01'')"
  by (simp add: pesel_2000_01_01 encoded_month_def)

text \<open>
  C3, amended. For every date of the years 1800 to 2299 the date block has six digits:
  the year modulo 100, then the month plus the century offset (80 for 1800-1899, 0 for
  1900-1999, 20 for 2000-2099, 40 for 2100-2199, 60 for 2200-2299), then the day, each
  padded with zeros to two digits; the identifier begins with this block. In particular
  the month field is \<open>81\<close> for 1800-01-01, \<open>01\<close> for 1900-01-01, \<open>21\<close> for 2000-01-01
  and for 2020-01-01, and \<open>41\<close> for 2100-01-01.
\<close>

theorem century_month_encoding:
  assumes "valid_date date" and "1800 \<le> year date" and "year date \<le> 2299"
  shows "length (format_date_for_pesel date) = 6 \<and>
         list_all is_digit (format_date_for_pesel date) \<and>
         format_date_for_pesel date =
           format_d 2 (year date mod 100) @
           format_d 2 (month date + spec_month_offset (year date)) @
           format_d 2 (day date) \<and>
         int (digits_value (take 2 (format_date_for_pesel date))) = year date mod 100 \<and>
         int (digits_value (encoded_month (format_date_for_pesel date))) =
           month date + spec_month_offset (year date) \<and>
         int (digits_value (drop 4 (format_date_for_pesel date))) = day date \<and>
         (\<exists>p. generate_pesel_for_date date seq male = Inr p \<and>
              take 6 p = format_date_for_pesel date \<and>
              encoded_month p = encoded_month (format_date_for_pesel date)) \<and>
         (\<exists>p. generate_pesel_for_date \<lparr>year = 1800, month = 1, day = 1\<rparr> seq male = Inr p \<and>
              encoded_month p = ''81'') \<and>
         (\<exists>p. generate_pesel_for_date \<lparr>year = 1900, month = 1, day = 1\<rparr> seq male = Inr p \<and>
              encoded_month p = ''01'') \<and>
         (\<exists>p. generate_pesel_for_date \<lparr>year = 2000, month = 1, day = 1\<rparr> seq male = Inr p \<and>
              encoded_month p = ''21'') \<and>
         (\<exists>p. generate_pesel_for_date \<lparr>year = 2020, month = 1, day = 1\<rparr> seq male = Inr p \<and>
              encoded_month p = ''21'') \<and>
         (\<exists>p. generate_pesel_for_date \<lparr>year = 2100, month = 1, day = 1\<rparr> seq male = Inr p \<and>
              encoded_month p = ''41'')"
proof -
  have d: "list_all is_digit (format_date_for_pesel date)"
    using format_date_for_pesel_digits(2) [OF assms(1)] by (simp only: list_all_iff)
  from format_date_for_pesel_digits(1) [OF assms(1)] d
    format_date_for_pesel_fields [OF assms]
    encoded_month_of_pesel [OF assms(1), of seq male]
    encoded_month_examples [of seq male]
  show ?thesis by (intro conjI)
qed

theorem century_month_encoding_witness:
  "valid_date \<lparr>year = 2020, month = 1, day = 1\<rparr> \<and>
   int (digits_value (encoded_month (format_date_for_pesel \<lparr>year = 2020, month = 1, day = 1\<rparr>))) = 21 \<and>
   int (digits_value (take 2 (format_date_for_pesel \<lparr>year = 2020, month = 1, day = 1\<rparr>))) = 20"
proof -
  let ?d = "\<lparr>year = 2020, month = 1, day = 1\<rparr>"
  have v: "valid_date ?d" by (rule valid_first_of_january) simp_all
  have a: "1800 \<le> year ?d" and b: "year ?d \<le> 2299" by simp_all
  note t = century_month_encoding [OF v a b, of 0 True]
  from t have "int (digits_value (encoded_month (format_date_for_pesel ?d))) =
      month ?d + spec_month_offset (year ?d)" by (elim conjE)
  then have m: "int (digits_value (encoded_month (format_date_for_pesel ?d))) = 21"
    by (simp add: spec_month_offset_def)
  from t have "int (digits_value (take 2 (format_date_for_pesel ?d))) = year ?d mod 100"
    by (elim conjE)
  then have y: "int (digits_value (take 2 (format_date_for_pesel ?d))) = 20" by simp
  from v m y show ?thesis by (intro conjI)
qed

section \<open>One day of the enumeration\<close>

lemma generate_pesel_for_date_pesel_of:
  assumes "valid_date date"
  shows "generate_pesel_for_date date (int n) male = Inr (pesel_of date n male)"
  by (simp add: pesel_of_def generate_pesel_for_date_shape [OF assms])

lemma code_selection:
  "((male \<and> n mod 2 = Suc 0) \<or> (\<not> male \<and> n mod 2 = 0)) = (odd (n::nat) = male)"
  "((male \<and> n mod 2 = 1) \<or> (\<not> male \<and> n mod 2 = 0)) = (odd (n::nat) = male)"
proof -
  have o: "(n mod 2 = Suc 0) = odd n" "(n mod 2 = 1) = odd n" "(n mod 2 = 0) = even n"
    by presburger+
  show "((male \<and> n mod 2 = Suc 0) \<or> (\<not> male \<and> n mod 2 = 0)) = (odd n = male)"
    unfolding o by blast
  show "((male \<and> n mod 2 = 1) \<or> (\<not> male \<and> n mod 2 = 0)) = (odd n = male)"
    unfolding o by blast
qed

lemma seq_loop_valid:
  assumes "valid_date date"
  shows "seq_loop date is_male ns acc =
           Inr (acc @ map (\<lambda>n. pesel_of date n (odd n)) (filter (seq_selected is_male) ns))"
proof (induction ns arbitrary: acc)
  case Nil
  show ?case by simp
next
  case (Cons n ns)
  show ?case
  proof (cases is_male)
    case None
    have o: "(n mod 2 = Suc 0) = odd n" "(n mod 2 = 1) = odd n"
      by (simp_all add: odd_iff_mod_2_eq_one)
    show ?thesis
      by (simp add: None o generate_pesel_for_date_pesel_of [OF assms] Cons.IH [unfolded None]
          seq_selected_def)
  next
    case (Some male)
    show ?thesis
    proof (cases "odd n = male")
      case True
      then show ?thesis
        by (simp add: Some code_selection generate_pesel_for_date_pesel_of [OF assms]
            Cons.IH [unfolded Some] seq_selected_def)
    next
      case False
      then show ?thesis
        by (simp add: Some code_selection Cons.IH [unfolded Some] seq_selected_def)
    qed
  qed
qed

lemma seq_loop_day_pesels:
  assumes "valid_date date"
  shows "seq_loop date is_male [0..<10000] acc = Inr (acc @ day_pesels date is_male)"
  by (simp only: seq_loop_valid [OF assms] day_pesels_def)

lemma spec_sequential_number_same:
  "n < 10000 \<Longrightarrow> spec_sequential_number (int n) (odd n) = int n"
  by (simp add: spec_sequential_number_def)

lemma block_of_pesel_of:
  assumes "valid_date date" and "n < 10000"
  shows "digits_value (seq_sex_block (pesel_of date n (odd n))) = n"
proof -
  from seq_sex_block_of_pesel [OF assms(1), of "int n" "odd n"]
  have b: "seq_sex_block (pesel_of date n (odd n)) = generate_sequential_and_sex_digits (int n) (odd n)"
    by (simp add: generate_pesel_for_date_pesel_of [OF assms(1)])
  have "int (digits_value (seq_sex_block (pesel_of date n (odd n)))) = int n"
    by (simp only: b seq_sex_digits_facts(3) spec_sequential_number_same [OF assms(2)])
  then show ?thesis by simp
qed

lemma length_filter_odd_upt: "length (filter odd [0..<2 * k]) = k"
  by (induction k) simp_all

lemma length_filter_even_upt: "length (filter even [0..<2 * k]) = k"
  by (induction k) simp_all

lemma day_pesels_blocks:
  assumes "valid_date date"
  shows "map block_value (day_pesels date is_male) = filter (seq_selected is_male) [0..<10000]"
proof -
  have "map (\<lambda>n. block_value (pesel_of date n (odd n))) (filter (seq_selected is_male) [0..<10000]) =
        filter (seq_selected is_male) [0..<10000]"
    by (rule map_idI) (simp add: block_value_def block_of_pesel_of [OF assms])
  then show ?thesis by (simp add: day_pesels_def o_def)
qed

lemma day_pesels_unfiltered:
  "day_pesels date None = map (\<lambda>n. pesel_of date n (odd n)) [0..<10000]"
  by (simp add: day_pesels_def seq_selected_def)

lemma seq_selected_simps:
  "filter (seq_selected None) ns = ns"
  "filter (seq_selected (Some True)) ns = filter odd ns"
  "filter (seq_selected (Some False)) ns = filter even ns"
proof -
  have "seq_selected None = (\<lambda>n. True)" "seq_selected (Some True) = odd"
    "seq_selected (Some False) = even"
    by (auto simp: seq_selected_def fun_eq_iff)
  then show "filter (seq_selected None) ns = ns"
    "filter (seq_selected (Some True)) ns = filter odd ns"
    "filter (seq_selected (Some False)) ns = filter even ns"
    by simp_all
qed

lemma upt_10000_counts:
  "length (filter odd [0..<10000]) = 5000" "length (filter even [0..<10000]) = 5000"
  using length_filter_odd_upt [of 5000] length_filter_even_upt [of 5000] by simp_all

lemma day_pesels_distinct:
  assumes "valid_date date"
  shows "distinct (day_pesels date is_male)"
proof -
  have "distinct (map block_value (day_pesels date is_male))"
    by (simp add: day_pesels_blocks [OF assms])
  then show ?thesis by (simp add: distinct_map)
qed

lemma day_pesels_counts:
  assumes "valid_date date"
  shows "length (day_pesels date None) = 10000"
    and "length (filter (\<lambda>p. odd (block_value p)) (day_pesels date None)) = 5000"
    and "length (filter (\<lambda>p. even (block_value p)) (day_pesels date None)) = 5000"
    and "length (day_pesels date (Some True)) = 5000"
    and "list_all (\<lambda>p. odd (block_value p)) (day_pesels date (Some True))"
    and "length (day_pesels date (Some False)) = 5000"
    and "list_all (\<lambda>p. even (block_value p)) (day_pesels date (Some False))"
proof -
  note b = day_pesels_blocks [OF assms]
  show "length (day_pesels date None) = 10000" by (simp add: day_pesels_unfiltered)
  have "length (filter (\<lambda>p. odd (block_value p)) (day_pesels date None)) =
        length (filter odd (map block_value (day_pesels date None)))"
    by (simp add: filter_map o_def)
  then show "length (filter (\<lambda>p. odd (block_value p)) (day_pesels date None)) = 5000"
    by (simp only: b seq_selected_simps upt_10000_counts)
  have "length (filter (\<lambda>p. even (block_value p)) (day_pesels date None)) =
        length (filter even (map block_value (day_pesels date None)))"
    by (simp add: filter_map o_def)
  then show "length (filter (\<lambda>p. even (block_value p)) (day_pesels date None)) = 5000"
    by (simp only: b seq_selected_simps upt_10000_counts)
  have "length (day_pesels date (Some True)) = length (map block_value (day_pesels date (Some True)))"
    by simp
  then show "length (day_pesels date (Some True)) = 5000"
    by (simp only: b seq_selected_simps upt_10000_counts)
  have "length (day_pesels date (Some False)) = length (map block_value (day_pesels date (Some False)))"
    by simp
  then show "length (day_pesels date (Some False)) = 5000"
    by (simp only: b seq_selected_simps upt_10000_counts)
  have "list_all odd (map block_value (day_pesels date (Some True)))"
    by (simp only: b seq_selected_simps) (simp add: list_all_iff)
  then show "list_all (\<lambda>p. odd (block_value p)) (day_pesels date (Some True))"
    by (simp add: list_all_iff)
  have "list_all even (map block_value (day_pesels date (Some False)))"
    by (simp only: b seq_selected_simps) (simp add: list_all_iff)
  then show "list_all (\<lambda>p. even (block_value p)) (day_pesels date (Some False))"
    by (simp add: list_all_iff)
qed

section \<open>The days the loop visits\<close>

lemma days_in_month_bounds: "28 \<le> days_in_month y m" "days_in_month y m \<le> 31"
  by (simp_all add: days_in_month_def)

lemma add_one_day_valid_le:
  assumes "valid_date d" and "add_one_day d = Inr n"
  shows "valid_date n" and "date_less d n"
proof -
  note b = days_in_month_bounds(1) [of "year d" "month d + 1"]
    days_in_month_bounds(1) [of "year d + 1" 1]
  from assms b show "valid_date n"
    by (auto simp: add_one_day_def valid_date_def split: if_splits)
  from assms show "date_less d n"
    by (auto simp: add_one_day_def valid_date_def date_less_def split: if_splits)
qed

lemma add_one_day_defined:
  assumes "year d < 9999"
  shows "\<exists>n. add_one_day d = Inr n"
  using assms by (simp add: add_one_day_def)

lemma date_le_year: "date_le a b \<Longrightarrow> year a \<le> year b"
  by (auto simp: date_le_def)

lemma add_one_day_next:
  assumes "valid_date d" and "valid_date e" and "date_le d e" and "d \<noteq> e"
    and "add_one_day d = Inr n"
  shows "date_le n e"
proof -
  obtain y m a where d: "d = \<lparr>year = y, month = m, day = a\<rparr>" by (cases d) auto
  obtain y' m' a' where e: "e = \<lparr>year = y', month = m', day = a'\<rparr>" by (cases e) auto
  from assms(1) have vd: "1 \<le> m" "m \<le> 12" "1 \<le> a" "a \<le> days_in_month y m"
    by (simp_all add: valid_date_def d)
  from assms(2) have ve: "1 \<le> m'" "m' \<le> 12" "1 \<le> a'" "a' \<le> days_in_month y' m'"
    by (simp_all add: valid_date_def e)
  from assms(3) have le: "y < y' \<or> (y = y' \<and> (m < m' \<or> (m = m' \<and> a \<le> a')))"
    by (simp add: date_le_def d e)
  from assms(4) have ne: "y \<noteq> y' \<or> m \<noteq> m' \<or> a \<noteq> a'" by (simp add: d e)
  consider (same_month) "y = y'" "m = m'" "a < a'"
    | (same_year) "y = y'" "m < m'"
    | (earlier_year) "y < y'"
    using le ne by fastforce
  then show ?thesis
  proof cases
    case same_month
    with vd ve assms(5) show ?thesis
      by (auto simp: add_one_day_def date_le_def d e split: if_splits)
  next
    case same_year
    with vd ve assms(5) show ?thesis
      by (auto simp: add_one_day_def date_le_def d e split: if_splits)
  next
    case earlier_year
    with vd ve assms(5) show ?thesis
      by (auto simp: add_one_day_def date_le_def d e split: if_splits)
  qed
qed

lemma date_less_not_le: "date_less a b \<Longrightarrow> \<not> date_le b a"
  by (auto simp: date_less_def date_le_def)

lemma date_less_trans: "date_less a b \<Longrightarrow> date_less b c \<Longrightarrow> date_less a c"
  by (auto simp: date_less_def)

lemma dates_from_valid:
  assumes "valid_date first"
  shows "\<forall>d \<in> set (dates_from first last_date). valid_date d \<and> date_le d last_date"
  using assms
proof (induction first last_date rule: dates_from.induct)
  case (1 first last_date)
  show ?case
  proof (cases "date_le first last_date")
    case False
    then show ?thesis by (simp add: dates_from.simps [of first last_date])
  next
    case le: True
    show ?thesis
    proof (cases "add_one_day first")
      case (Inl err)
      with le "1.prems" show ?thesis by (simp add: dates_from.simps [of first last_date])
    next
      case (Inr n)
      from "1.IH" [OF le Inr add_one_day_valid_le(1) [OF "1.prems" Inr]] le "1.prems" Inr
      show ?thesis by (simp add: dates_from.simps [of first last_date])
    qed
  qed
qed

lemma dates_from_hd:
  assumes "date_le first last_date"
  shows "dates_from first last_date \<noteq> []" and "hd (dates_from first last_date) = first"
  using assms by (simp_all add: dates_from.simps [of first last_date])

lemma dates_from_successive:
  "successively (\<lambda>a b. add_one_day a = Inr b) (dates_from first last_date)"
proof (induction first last_date rule: dates_from.induct)
  case (1 first last_date)
  show ?case
  proof (cases "date_le first last_date")
    case False
    then show ?thesis by (simp add: dates_from.simps [of first last_date])
  next
    case le: True
    show ?thesis
    proof (cases "add_one_day first")
      case (Inl err)
      with le show ?thesis by (simp add: dates_from.simps [of first last_date])
    next
      case (Inr n)
      from "1.IH" [OF le Inr] le Inr show ?thesis
        by (simp add: dates_from.simps [of first last_date] successively_Cons
            dates_from.simps [of n last_date])
    qed
  qed
qed

lemma dates_from_last:
  assumes "valid_date first" and "valid_date last_date" and "date_le first last_date"
    and "year last_date < 9999"
  shows "last (dates_from first last_date) = last_date"
  using assms
proof (induction first last_date rule: dates_from.induct)
  case (1 first last_date)
  note le = "1.prems"(3)
  from date_le_year [OF le] "1.prems"(4) have "year first < 9999" by simp
  from add_one_day_defined [OF this] obtain n where n: "add_one_day first = Inr n" by blast
  note vn = add_one_day_valid_le [OF "1.prems"(1) n]
  have unf: "dates_from first last_date = first # dates_from n last_date"
    using le n by (simp add: dates_from.simps [of first last_date])
  show ?case
  proof (cases "first = last_date")
    case True
    with vn(2) have "\<not> date_le n last_date" by (simp add: date_less_not_le)
    then have "dates_from n last_date = []" by (simp add: dates_from.simps [of n last_date])
    then have "dates_from first last_date = [first]" by (simp add: unf)
    then have "last (dates_from first last_date) = first" by simp
    with True show ?thesis by simp
  next
    case False
    note nle = add_one_day_next [OF "1.prems"(1,2) le False n]
    from "1.IH" [OF le n vn(1) "1.prems"(2) nle "1.prems"(4)] dates_from_hd(1) [OF nle]
    show ?thesis by (simp add: unf)
  qed
qed

lemma dates_from_sorted:
  assumes "valid_date first"
  shows "sorted_wrt date_less (dates_from first last_date)"
proof -
  have "successively date_less (dates_from first last_date)"
    using dates_from_successive [of first last_date]
  proof (rule successively_mono)
    fix a b
    assume "a \<in> set (dates_from first last_date)" and "add_one_day a = Inr b"
    with dates_from_valid [OF assms, of last_date] show "date_less a b"
      by (auto dest: add_one_day_valid_le(2))
  qed
  moreover have "transp date_less" by (rule transpI) (rule date_less_trans)
  ultimately show ?thesis by (simp add: successively_conv_sorted_wrt)
qed

section \<open>The loop over the days\<close>

lemma day_loop_console:
  "day_loop p im e td (s\<lparr>console := c\<rparr>) =
     (c @ fst (day_loop p im e td (s\<lparr>console := []\<rparr>)),
      snd (day_loop p im e td (s\<lparr>console := []\<rparr>)))"
proof (induction p im e td s arbitrary: c rule: day_loop.induct)
  case (1 p im e td s)
  note unf = day_loop.simps [of p im e td "s\<lparr>console := c\<rparr>"]
    day_loop.simps [of p im e td "s\<lparr>console := []\<rparr>"]
  show ?case
  proof (cases "date_le (current_date s) e")
    case False
    then show ?thesis by (simp add: unf)
  next
    case le: True
    show ?thesis
    proof (cases "seq_loop (current_date s) im [0..<10000] (pesels s)")
      case (Inl err)
      with le show ?thesis by (simp add: unf)
    next
      case ps: (Inr ps)
      show ?thesis
      proof (cases "add_one_day (current_date s)")
        case (Inl err)
        with le ps show ?thesis by (simp add: unf Let_def)
      next
        case nd: (Inr nd)
        let ?dp = "days_processed s + 1"
        let ?cp = "p ?dp td"
        let ?t = "progress_text ?dp td ?cp"
        let ?next = "\<lambda>out. \<lparr>pesels = ps, current_date = nd, days_processed = ?dp,
                              last_progress = ?cp, console = out\<rparr>"
        have ih: "day_loop p im e td (?next out) =
                    (out @ fst (day_loop p im e td (?next [])), snd (day_loop p im e td (?next [])))"
          for out
          using "1.IH" [OF le ps refl refl refl nd, of out] by simp
        have step: "day_loop p im e td (s\<lparr>console := out\<rparr>) =
                      day_loop p im e td (?next (if ?cp \<noteq> last_progress s then out @ [?t] else out))"
          for out
          using le ps nd by (simp add: day_loop.simps [of p im e td "s\<lparr>console := out\<rparr>"] Let_def)
        show ?thesis
          by (simp only: step [of c] step [of "[]"] ih [of "if ?cp \<noteq> last_progress s then c @ [?t] else c"]
              ih [of "if ?cp \<noteq> last_progress s then [] @ [?t] else []"]) simp
      qed
    qed
  qed
qed

lemma day_loop_pesels:
  assumes "valid_date (current_date s)" and "year e < 9999"
  shows "snd (day_loop p im e td s) =
           Inr (pesels s @ concat (map (\<lambda>d. day_pesels d im) (dates_from (current_date s) e)))"
  using assms
proof (induction p im e td s rule: day_loop.induct)
  case (1 p im e td s)
  note v = "1.prems"(1)
  show ?case
  proof (cases "date_le (current_date s) e")
    case False
    then show ?thesis
      by (simp add: day_loop.simps [of p im e td s] dates_from.simps [of "current_date s" e])
  next
    case le: True
    note ps = seq_loop_day_pesels [OF v, of im "pesels s"]
    from date_le_year [OF le] "1.prems"(2) have "year (current_date s) < 9999" by simp
    from add_one_day_defined [OF this] obtain nd where nd: "add_one_day (current_date s) = Inr nd"
      by blast
    note vn = add_one_day_valid_le(1) [OF v nd]
    let ?next = "\<lparr>pesels = pesels s @ day_pesels (current_date s) im, current_date = nd,
                  days_processed = days_processed s + 1,
                  last_progress = p (days_processed s + 1) td,
                  console = (if p (days_processed s + 1) td \<noteq> last_progress s
                             then console s @ [progress_text (days_processed s + 1) td
                                                 (p (days_processed s + 1) td)]
                             else console s)\<rparr>"
    have ih: "snd (day_loop p im e td ?next) =
                Inr (pesels ?next @ concat (map (\<lambda>d. day_pesels d im) (dates_from (current_date ?next) e)))"
      by (rule "1.IH" [OF le ps refl refl refl nd]) (simp_all add: vn "1.prems"(2))
    have step: "day_loop p im e td s = day_loop p im e td ?next"
      using le ps nd by (simp add: day_loop.simps [of p im e td s] Let_def)
    have d: "dates_from (current_date s) e = current_date s # dates_from nd e"
      using le nd by (simp add: dates_from.simps [of "current_date s" e])
    show ?thesis by (simp add: step ih d)
  qed
qed

lemma day_loop_progress:
  "\<forall>c \<in> set (fst (day_loop p im e td s)).
     c \<in> set (console s) \<or> (\<exists>a b q. c = progress_text a b q)"
proof (induction p im e td s rule: day_loop.induct)
  case (1 p im e td s)
  show ?case
  proof (cases "date_le (current_date s) e")
    case False
    then show ?thesis by (simp add: day_loop.simps [of p im e td s])
  next
    case le: True
    show ?thesis
    proof (cases "seq_loop (current_date s) im [0..<10000] (pesels s)")
      case (Inl err)
      with le show ?thesis by (simp add: day_loop.simps [of p im e td s])
    next
      case ps: (Inr ps)
      show ?thesis
      proof (cases "add_one_day (current_date s)")
        case (Inl err)
        with le ps show ?thesis by (auto simp: day_loop.simps [of p im e td s] Let_def)
      next
        case nd: (Inr nd)
        let ?next = "\<lparr>pesels = ps, current_date = nd,
                  days_processed = days_processed s + 1,
                  last_progress = p (days_processed s + 1) td,
                  console = (if p (days_processed s + 1) td \<noteq> last_progress s
                             then console s @ [progress_text (days_processed s + 1) td
                                                 (p (days_processed s + 1) td)]
                             else console s)\<rparr>"
        have ih: "\<forall>c \<in> set (fst (day_loop p im e td ?next)).
                    c \<in> set (console ?next) \<or> (\<exists>a b q. c = progress_text a b q)"
          by (rule "1.IH" [OF le ps refl refl refl nd])
        have step: "day_loop p im e td s = day_loop p im e td ?next"
          using le ps nd by (simp add: day_loop.simps [of p im e td s] Let_def)
        from ih show ?thesis unfolding step by (auto split: if_splits)
      qed
    qed
  qed
qed

section \<open>The whole enumeration\<close>

lemma datetime_new_first:
  assumes "1 \<le> y" and "y \<le> 9999"
  shows "datetime_new y 1 1 = Inr \<lparr>year = y, month = 1, day = 1\<rparr>"
    and "valid_date \<lparr>year = y, month = 1, day = 1\<rparr>"
  using assms by (simp_all add: datetime_new_def valid_date_def days_in_month_def)

lemma datetime_new_last:
  assumes "1 \<le> y" and "y \<le> 9999"
  shows "datetime_new y 12 31 = Inr \<lparr>year = y, month = 12, day = 31\<rparr>"
    and "valid_date \<lparr>year = y, month = 12, day = 31\<rparr>"
  using assms by (simp_all add: datetime_new_def valid_date_def days_in_month_def)

lemma datetime_new_invalid_year:
  assumes "y < 1 \<or> 9999 < y"
  shows "datetime_new y m d = Inl ValueError"
  using assms by (auto simp: datetime_new_def valid_date_def)

lemma generate_console:
  "generate_pesels_for_year_range p s e im out =
     (out @ fst (generate_pesels_for_year_range p s e im []),
      snd (generate_pesels_for_year_range p s e im []))"
proof (cases "datetime_new s 1 1")
  case (Inl err)
  then show ?thesis by (simp add: generate_pesels_for_year_range_def)
next
  case sd: (Inr sd)
  show ?thesis
  proof (cases "datetime_new e 12 31")
    case (Inl err)
    with sd show ?thesis by (simp add: generate_pesels_for_year_range_def)
  next
    case ed: (Inr ed)
    let ?s = "\<lambda>c. \<lparr>pesels = [], current_date = sd, days_processed = 0, last_progress = - 1,
                   console = c\<rparr>"
    let ?td = "toordinal ed - toordinal sd + 1"
    have c: "day_loop p im ed ?td (?s c) =
               (c @ fst (day_loop p im ed ?td (?s [])), snd (day_loop p im ed ?td (?s [])))" for c
      using day_loop_console [where p = p and im = im and e = ed and td = "?td" and s = "?s []" and c = c]
      by simp
    have g: "generate_pesels_for_year_range p s e im c =
               (case day_loop p im ed ?td (?s c) of
                  (out', Inl err) \<Rightarrow> (out', Inl err)
                | (out', Inr ps) \<Rightarrow> (out' @ [[CHR 0x0A]], Inr ps))" for c
      by (simp add: generate_pesels_for_year_range_def sd ed Let_def)
    obtain f r where dl: "day_loop p im ed ?td (?s []) = (f, r)"
      by (cases "day_loop p im ed ?td (?s [])")
    show ?thesis
      by (cases r) (simp_all add: g [of out] g [of "[]"] c [of out] dl)
  qed
qed

lemma generate_result:
  assumes "1 \<le> s" and "s \<le> 9999" and "1 \<le> e" and "e \<le> 9998"
  shows "snd (generate_pesels_for_year_range p s e im out) =
           Inr (concat (map (\<lambda>d. day_pesels d im)
                  (dates_from \<lparr>year = s, month = 1, day = 1\<rparr> \<lparr>year = e, month = 12, day = 31\<rparr>)))"
    and "\<exists>pr. fst (generate_pesels_for_year_range p s e im out) = out @ pr @ [[CHR 0x0A]] \<and>
              (\<forall>c \<in> set pr. \<exists>a b q. c = progress_text a b q)"
proof -
  let ?sd = "\<lparr>year = s, month = 1, day = 1\<rparr>"
  let ?ed = "\<lparr>year = e, month = 12, day = 31\<rparr>"
  let ?s = "\<lparr>pesels = [], current_date = ?sd, days_processed = 0, last_progress = - 1,
             console = out\<rparr>"
  let ?td = "toordinal ?ed - toordinal ?sd + 1"
  from assms have e': "e \<le> 9999" by simp
  note sd = datetime_new_first [OF assms(1,2)]
  note ed = datetime_new_last [OF assms(3) e']
  obtain f r where dl: "day_loop p im ?ed ?td ?s = (f, r)"
    by (cases "day_loop p im ?ed ?td ?s")
  have v: "valid_date (current_date ?s)" using sd(2) by simp
  have y: "year ?ed < 9999" using assms(4) by simp
  from day_loop_pesels [OF v y, of p im ?td]
  have r: "r = Inr (concat (map (\<lambda>d. day_pesels d im) (dates_from ?sd ?ed)))"
    by (simp add: dl)
  have g: "generate_pesels_for_year_range p s e im out = (f @ [[CHR 0x0A]], r)"
    by (simp add: generate_pesels_for_year_range_def sd(1) ed(1) Let_def dl r)
  show "snd (generate_pesels_for_year_range p s e im out) =
          Inr (concat (map (\<lambda>d. day_pesels d im) (dates_from ?sd ?ed)))"
    by (simp add: g r)
  from day_loop_console [where p = p and im = im and e = ?ed and td = ?td and s = ?s and c = out]
  have f: "f = out @ fst (day_loop p im ?ed ?td (?s\<lparr>console := []\<rparr>))"
    by (simp add: dl)
  from day_loop_progress [of p im ?ed ?td "?s\<lparr>console := []\<rparr>"]
  have "\<forall>c \<in> set (fst (day_loop p im ?ed ?td (?s\<lparr>console := []\<rparr>))). \<exists>a b q. c = progress_text a b q"
    by simp
  with f show "\<exists>pr. fst (generate_pesels_for_year_range p s e im out) = out @ pr @ [[CHR 0x0A]] \<and>
              (\<forall>c \<in> set pr. \<exists>a b q. c = progress_text a b q)"
    by (intro exI [of _ "fst (day_loop p im ?ed ?td (?s\<lparr>console := []\<rparr>))"]) (simp add: g)
qed

text \<open>
  C8. The list returned by \<open>generate_pesels_for_year_range\<close> depends on its arguments
  only: whatever is on the console when the call begins, the call returns the same result
  (the same identifiers in the same order, or the same exception); a second call made right
  after the first returns what the first returned; and a call only appends to the console.
\<close>

theorem enumeration_deterministic:
  "snd (generate_pesels_for_year_range p s e im out1) =
     snd (generate_pesels_for_year_range p s e im out2) \<and>
   snd (generate_pesels_for_year_range p s e im
          (fst (generate_pesels_for_year_range p s e im out1))) =
     snd (generate_pesels_for_year_range p s e im out1) \<and>
   fst (generate_pesels_for_year_range p s e im out1) =
     out1 @ fst (generate_pesels_for_year_range p s e im [])"
proof -
  have a: "snd (generate_pesels_for_year_range p s e im out) =
           snd (generate_pesels_for_year_range p s e im [])" for out
    using generate_console [of p s e im out] by (metis snd_conv)
  have b: "fst (generate_pesels_for_year_range p s e im out) =
           out @ fst (generate_pesels_for_year_range p s e im [])" for out
    using generate_console [of p s e im out] by (metis fst_conv)
  have c1: "snd (generate_pesels_for_year_range p s e im out1) =
            snd (generate_pesels_for_year_range p s e im out2)"
    by (simp only: a [of out1] a [of out2])
  have c2: "snd (generate_pesels_for_year_range p s e im
                  (fst (generate_pesels_for_year_range p s e im out1))) =
            snd (generate_pesels_for_year_range p s e im out1)"
    by (simp only: a [of "fst (generate_pesels_for_year_range p s e im out1)"] a [of out1])
  from c1 c2 b [of out1] show ?thesis by (intro conjI)
qed

theorem enumeration_deterministic_witness:
  "snd (generate_pesels_for_year_range (\<lambda>d t. 100 * d div t) 1999 1999 None []) =
     snd (generate_pesels_for_year_range (\<lambda>d t. 100 * d div t) 1999 1999 None [''x''])"
  using enumeration_deterministic [of "\<lambda>d t. 100 * d div t" 1999 1999 None "[]" "[''x'']"]
  by (rule conjunct1)

section \<open>Identifiers per day\<close>

lemma range_dates_valid:
  assumes "1 \<le> s" and "s \<le> 9999"
  shows "\<forall>d \<in> set (dates_from \<lparr>year = s, month = 1, day = 1\<rparr> last_date). valid_date d"
  using dates_from_valid [OF datetime_new_first(2) [OF assms], of last_date] by blast

text \<open>
  C5. For a range of years from 1 to 9998 the enumerator returns the identifiers of the
  days it visits, day after day. For every such day: without a sex filter the inner loop
  adds exactly 10000 identifiers, one for each sequential number 0..9999 with the sex of
  that number's parity; 5000 of them have an odd block and 5000 an even one, and no two
  are equal. With the male filter it adds exactly 5000 identifiers, all with an odd block.
\<close>

theorem day_identifiers_count:
  assumes "1 \<le> s" and "s \<le> 9999" and "1 \<le> e" and "e \<le> 9998"
    and "date \<in> set (dates_from \<lparr>year = s, month = 1, day = 1\<rparr> \<lparr>year = e, month = 12, day = 31\<rparr>)"
  shows "snd (generate_pesels_for_year_range p s e is_male out) =
           Inr (concat (map (\<lambda>d. day_pesels d is_male)
                  (dates_from \<lparr>year = s, month = 1, day = 1\<rparr> \<lparr>year = e, month = 12, day = 31\<rparr>))) \<and>
         seq_loop date None [0..<10000] acc = Inr (acc @ day_pesels date None) \<and>
         day_pesels date None = map (\<lambda>n. pesel_of date n (odd n)) [0..<10000] \<and>
         map block_value (day_pesels date None) = [0..<10000] \<and>
         length (day_pesels date None) = 10000 \<and>
         length (filter (\<lambda>q. odd (block_value q)) (day_pesels date None)) = 5000 \<and>
         length (filter (\<lambda>q. even (block_value q)) (day_pesels date None)) = 5000 \<and>
         distinct (day_pesels date None) \<and>
         seq_loop date (Some True) [0..<10000] acc = Inr (acc @ day_pesels date (Some True)) \<and>
         length (day_pesels date (Some True)) = 5000 \<and>
         list_all (\<lambda>q. odd (block_value q)) (day_pesels date (Some True))"
proof -
  from range_dates_valid [OF assms(1,2)] assms(5) have v: "valid_date date" by blast
  have b: "map block_value (day_pesels date None) = [0..<10000]"
    by (simp only: day_pesels_blocks [OF v] seq_selected_simps)
  from generate_result(1) [OF assms(1-4), of p is_male out]
    seq_loop_day_pesels [OF v, of None acc] day_pesels_unfiltered [of date] b
    day_pesels_counts(1-3) [OF v] day_pesels_distinct [OF v, of None]
    seq_loop_day_pesels [OF v, of "Some True" acc] day_pesels_counts(4,5) [OF v]
  show ?thesis by (intro conjI)
qed

lemma first_day_in_range:
  assumes "s \<le> e"
  shows "\<lparr>year = s, month = 1, day = 1\<rparr> \<in>
           set (dates_from \<lparr>year = s, month = 1, day = 1\<rparr> \<lparr>year = e, month = 12, day = 31\<rparr>)"
proof -
  from assms have "date_le \<lparr>year = s, month = 1, day = 1\<rparr> \<lparr>year = e, month = 12, day = 31\<rparr>"
    by (auto simp: date_le_def)
  from dates_from_hd [OF this] show ?thesis by (metis list.set_sel(1))
qed

theorem day_identifiers_count_witness:
  "\<lparr>year = 1999, month = 1, day = 1\<rparr> \<in>
     set (dates_from \<lparr>year = 1999, month = 1, day = 1\<rparr> \<lparr>year = 1999, month = 12, day = 31\<rparr>) \<and>
   length (day_pesels \<lparr>year = 1999, month = 1, day = 1\<rparr> None) = 10000 \<and>
   length (filter (\<lambda>q. odd (block_value q)) (day_pesels \<lparr>year = 1999, month = 1, day = 1\<rparr> None)) = 5000 \<and>
   distinct (day_pesels \<lparr>year = 1999, month = 1, day = 1\<rparr> None) \<and>
   length (day_pesels \<lparr>year = 1999, month = 1, day = 1\<rparr> (Some True)) = 5000"
proof -
  have a: "(1::int) \<le> 1999" "(1999::int) \<le> 9999" "(1999::int) \<le> 9998" by simp_all
  have m: "\<lparr>year = 1999, month = 1, day = 1\<rparr> \<in>
     set (dates_from \<lparr>year = 1999, month = 1, day = 1\<rparr> \<lparr>year = 1999, month = 12, day = 31\<rparr>)"
    by (rule first_day_in_range) simp
  note t = day_identifiers_count [OF a(1) a(2) a(1) a(3) m, of "\<lambda>d t. 100 * d div t" None "[]" "[]"]
  from t have t1: "length (day_pesels \<lparr>year = 1999, month = 1, day = 1\<rparr> None) = 10000"
    by (elim conjE)
  from t have t2: "length (filter (\<lambda>q. odd (block_value q)) (day_pesels \<lparr>year = 1999, month = 1, day = 1\<rparr> None)) = 5000"
    by (elim conjE)
  from t have t3: "distinct (day_pesels \<lparr>year = 1999, month = 1, day = 1\<rparr> None)"
    by (elim conjE)
  from t have t4: "length (day_pesels \<lparr>year = 1999, month = 1, day = 1\<rparr> (Some True)) = 5000"
    by (elim conjE)
  from m t1 t2 t3 t4 show ?thesis by (intro conjI)
qed

section \<open>The order of the enumeration\<close>

lemma day_pesels_date_block:
  assumes "valid_date date"
  shows "list_all (\<lambda>q. take 6 q = format_date_for_pesel date) (day_pesels date is_male)"
proof -
  have "take 6 (pesel_of date n male) = format_date_for_pesel date" for n male
    using seq_sex_block_of_pesel [OF assms, of "int n" male]
    by (simp add: generate_pesel_for_date_pesel_of [OF assms])
  then show ?thesis by (simp add: day_pesels_def list_all_iff)
qed

lemma day_pesels_ascending:
  assumes "valid_date date"
  shows "sorted_wrt (<) (map block_value (day_pesels date is_male))"
  by (simp only: day_pesels_blocks [OF assms]) (simp add: sorted_wrt_filter)

text \<open>
  C6. For years \<open>1 \<le> s \<le> e \<le> 9998\<close> the list returned is made of the identifiers of
  consecutive days: the first day is January 1 of \<open>s\<close>, the last is December 31 of \<open>e\<close>,
  each day is the calendar day after the one before, so the dates strictly ascend; all
  identifiers of a day carry that day's date block, and within a day the sequential numbers
  read back from the identifiers strictly ascend.
\<close>

theorem enumeration_order:
  assumes "1 \<le> s" and "s \<le> e" and "e \<le> 9998"
  shows "\<exists>ds. snd (generate_pesels_for_year_range p s e is_male out) =
                Inr (concat (map (\<lambda>d. day_pesels d is_male) ds)) \<and>
              ds \<noteq> [] \<and>
              hd ds = \<lparr>year = s, month = 1, day = 1\<rparr> \<and>
              last ds = \<lparr>year = e, month = 12, day = 31\<rparr> \<and>
              successively (\<lambda>a b. add_one_day a = Inr b) ds \<and>
              sorted_wrt date_less ds \<and>
              list_all (\<lambda>d. valid_date d \<and>
                         list_all (\<lambda>q. take 6 q = format_date_for_pesel d) (day_pesels d is_male) \<and>
                         map block_value (day_pesels d is_male) =
                           filter (seq_selected is_male) [0..<10000] \<and>
                         sorted_wrt (<) (map block_value (day_pesels d is_male))) ds"
proof -
  let ?sd = "\<lparr>year = s, month = 1, day = 1\<rparr>"
  let ?ed = "\<lparr>year = e, month = 12, day = 31\<rparr>"
  let ?ds = "dates_from ?sd ?ed"
  from assms have b: "s \<le> 9999" "1 \<le> e" "e \<le> 9999" by simp_all
  note vs = datetime_new_first(2) [OF assms(1) b(1)]
  note ve = datetime_new_last(2) [OF b(2) b(3)]
  from assms(2) have le: "date_le ?sd ?ed" by (auto simp: date_le_def)
  have y: "year ?ed < 9999" using assms(3) by simp
  have per_day: "list_all (\<lambda>d. valid_date d \<and>
                         list_all (\<lambda>q. take 6 q = format_date_for_pesel d) (day_pesels d is_male) \<and>
                         map block_value (day_pesels d is_male) =
                           filter (seq_selected is_male) [0..<10000] \<and>
                         sorted_wrt (<) (map block_value (day_pesels d is_male))) ?ds"
    unfolding list_all_iff
  proof
    fix d assume "d \<in> set ?ds"
    with dates_from_valid [OF vs, of ?ed] have v: "valid_date d" by blast
    from v day_pesels_date_block [OF v, of is_male] day_pesels_blocks [OF v, of is_male]
      day_pesels_ascending [OF v, of is_male]
    show "valid_date d \<and>
          (\<forall>q \<in> set (day_pesels d is_male). take 6 q = format_date_for_pesel d) \<and>
          map block_value (day_pesels d is_male) = filter (seq_selected is_male) [0..<10000] \<and>
          sorted_wrt (<) (map block_value (day_pesels d is_male))"
      by (simp add: list_all_iff)
  qed
  from generate_result(1) [OF assms(1) b(1) b(2) assms(3), of p is_male out]
    dates_from_hd [OF le] dates_from_last [OF vs ve le y]
    dates_from_successive [of ?sd ?ed] dates_from_sorted [OF vs, of ?ed] per_day
  show ?thesis by (intro exI [of _ ?ds] conjI)
qed

theorem enumeration_order_witness:
  "(1::int) \<le> 1999 \<and> (1999::int) \<le> 2000 \<and> (2000::int) \<le> 9998 \<and>
   (\<exists>ds. snd (generate_pesels_for_year_range (\<lambda>d t. 100 * d div t) 1999 2000 None []) =
            Inr (concat (map (\<lambda>d. day_pesels d None) ds)) \<and>
          hd ds = \<lparr>year = 1999, month = 1, day = 1\<rparr> \<and>
          last ds = \<lparr>year = 2000, month = 12, day = 31\<rparr> \<and>
          sorted_wrt date_less ds)"
proof -
  have a: "(1::int) \<le> 1999" "(1999::int) \<le> 2000" "(2000::int) \<le> 9998" by simp_all
  from enumeration_order [OF a, of "\<lambda>d t. 100 * d div t" None "[]"] obtain ds where
    "snd (generate_pesels_for_year_range (\<lambda>d t. 100 * d div t) 1999 2000 None []) =
            Inr (concat (map (\<lambda>d. day_pesels d None) ds))"
    "hd ds = \<lparr>year = 1999, month = 1, day = 1\<rparr>"
    "last ds = \<lparr>year = 2000, month = 12, day = 31\<rparr>"
    "sorted_wrt date_less ds" by blast
  with a show ?thesis by (intro conjI exI [of _ ds])
qed

end
